theory Spec2Isabelle
  imports Main "HOL-Library.Word"
begin

unbundle bit_operations_syntax

section \<open>Mumble plugin utilities (\<^verbatim>\<open>plugins/mumble_plugin_utils.h\<close>)\<close>

type_synonym byte = "8 word"

subsection \<open>The string sanitizer \<^verbatim>\<open>escape\<close>\<close>

text \<open>
  \<^verbatim>\<open>escape(char *str, const size_t &size)\<close> works on raw memory. The model keeps the bytes
  reachable from \<^verbatim>\<open>str\<close> as a list (\<^verbatim>\<open>str[i]\<close> is element \<open>i\<close>) together with a log of
  every access the function makes, in program order. An access outside the list is the
  error \<open>OutOfBounds\<close> (undefined behaviour in C++). \<^verbatim>\<open>size_t\<close> is a 64-bit word, so that
  \<^verbatim>\<open>size - 1\<close> wraps around for \<^verbatim>\<open>size == 0\<close>.
\<close>

datatype error = OutOfBounds

datatype access = Rd nat | Wr nat

record mem =
  bytes :: "byte list"
  log :: "access list"

definition rd :: "nat \<Rightarrow> mem \<Rightarrow> error + (byte \<times> mem)" where
  "rd i m = (if i < length (bytes m)
             then Inr (bytes m ! i, m\<lparr>log := log m @ [Rd i]\<rparr>)
             else Inl OutOfBounds)"

definition wr :: "nat \<Rightarrow> byte \<Rightarrow> mem \<Rightarrow> error + mem" where
  "wr i v m = (if i < length (bytes m)
               then Inr (m\<lparr>bytes := (bytes m)[i := v], log := log m @ [Wr i]\<rparr>)
               else Inl OutOfBounds)"

text \<open>
  Whether plain \<^verbatim>\<open>char\<close> is signed is the platform's choice; \<open>char_val sg v\<close> is the value
  of the \<^verbatim>\<open>char\<close> \<open>v\<close> after integer promotion, \<open>sg\<close> telling whether \<^verbatim>\<open>char\<close> is signed.
\<close>

definition char_val :: "bool \<Rightarrow> byte \<Rightarrow> int" where
  "char_val sg v = (if sg then sint v else uint v)"

text \<open>The first \<^verbatim>\<open>if\<close> of the loop body: \<^verbatim>\<open>if (*c == '"') *c = ' ';\<close>\<close>

definition escape_quote :: "bool \<Rightarrow> nat \<Rightarrow> mem \<Rightarrow> error + mem" where
  "escape_quote sg c m =
     (case rd c m of
        Inl e \<Rightarrow> Inl e
      | Inr (v, m1) \<Rightarrow> if char_val sg v = 34 then wr c 32 m1 else Inr m1)"

text \<open>
  The second \<^verbatim>\<open>if\<close>: \<^verbatim>\<open>if (*c < 32 || *c > 126) *c = ' ';\<close> The right operand of \<^verbatim>\<open>||\<close>
  is read only when the left one is false.
\<close>

definition escape_range :: "bool \<Rightarrow> nat \<Rightarrow> mem \<Rightarrow> error + mem" where
  "escape_range sg c m =
     (case rd c m of
        Inl e \<Rightarrow> Inl e
      | Inr (v, m1) \<Rightarrow>
          if char_val sg v < 32 then wr c 32 m1
          else (case rd c m1 of
                  Inl e \<Rightarrow> Inl e
                | Inr (w, m2) \<Rightarrow> if char_val sg w > 126 then wr c 32 m2 else Inr m2))"

definition escape_body :: "bool \<Rightarrow> nat \<Rightarrow> mem \<Rightarrow> error + mem" where
  "escape_body sg c m =
     (case escape_quote sg c m of Inl e \<Rightarrow> Inl e | Inr m1 \<Rightarrow> escape_range sg c m1)"

text \<open>The loop \<^verbatim>\<open>while (*c != '\0') { ...; c += 1; }\<close>, \<open>c\<close> being the offset from \<^verbatim>\<open>str\<close>.\<close>

function escape_loop :: "bool \<Rightarrow> nat \<Rightarrow> mem \<Rightarrow> error + mem" where
  "escape_loop sg c m =
     (case rd c m of
        Inl e \<Rightarrow> Inl e
      | Inr (v, m1) \<Rightarrow>
          if char_val sg v = 0 then Inr m1
          else (case escape_body sg c m1 of
                  Inl e \<Rightarrow> Inl e
                | Inr m2 \<Rightarrow> escape_loop sg (c + 1) m2))"
  by pat_completeness auto
termination
  by (relation "measure (\<lambda>(sg, c, m). length (bytes m) - c)")
     (auto simp: rd_def wr_def escape_body_def escape_quote_def escape_range_def
           split: if_splits sum.splits)

declare escape_loop.simps [simp del]

text \<open>
  \<^verbatim>\<open>escape\<close> itself: \<^verbatim>\<open>str[size - 1] = 0;\<close> and then the loop from offset 0. The
  subtraction is on \<^verbatim>\<open>size_t\<close>.
\<close>

definition escape :: "bool \<Rightarrow> byte list \<Rightarrow> 64 word \<Rightarrow> error + mem" where
  "escape sg str sz =
     (case wr (unat (sz - 1)) 0 \<lparr>bytes = str, log = []\<rparr> of
        Inl e \<Rightarrow> Inl e
      | Inr m \<Rightarrow> escape_loop sg 0 m)"

text \<open>Vocabulary for stating what \<^verbatim>\<open>escape\<close> achieves.\<close>

definition printable :: "byte \<Rightarrow> bool" where
  "printable b = (32 \<le> uint b \<and> uint b \<le> 126)"

definition clean :: "byte \<Rightarrow> byte" where
  "clean b = (if b = 34 \<or> \<not> printable b then 32 else b)"

fun index_of :: "access \<Rightarrow> nat" where
  "index_of (Rd i) = i"
| "index_of (Wr i) = i"

fun is_write :: "access \<Rightarrow> bool" where
  "is_write (Rd i) = False"
| "is_write (Wr i) = True"

definition in_scan :: "nat \<Rightarrow> nat \<Rightarrow> access \<Rightarrow> bool" where
  "in_scan c n a = (c \<le> index_of a \<and> index_of a \<le> n \<and> (is_write a \<longrightarrow> index_of a < n))"

definition first_nul :: "byte list \<Rightarrow> nat" where
  "first_nul xs = length (takeWhile (\<lambda>b. b \<noteq> 0) xs)"

subsection \<open>Byte order: \<^verbatim>\<open>SingleSplit4Bytes\<close>, \<^verbatim>\<open>isBigEndian\<close>, \<^verbatim>\<open>networkToHost\<close>\<close>

text \<open>
  The union \<^verbatim>\<open>SingleSplit4Bytes\<close> overlays a \<^verbatim>\<open>uint32_t\<close> and four bytes, so what
  \<^verbatim>\<open>split[0]\<close> holds after the constructor has written \<^verbatim>\<open>single\<close> is decided by the byte
  order of the platform. The model makes the byte order a parameter and the union its four
  bytes of storage, in address order.
\<close>

datatype byte_order = BigEndian | LittleEndian | PdpEndian

definition byte_of :: "32 word \<Rightarrow> nat \<Rightarrow> byte" where
  "byte_of v k = ucast (drop_bit (8 * k) v)"

text \<open>The object representation of a \<^verbatim>\<open>uint32_t\<close>: its bytes in address order.\<close>

fun store_uint32 :: "byte_order \<Rightarrow> 32 word \<Rightarrow> byte list" where
  "store_uint32 BigEndian v = [byte_of v 3, byte_of v 2, byte_of v 1, byte_of v 0]"
| "store_uint32 LittleEndian v = [byte_of v 0, byte_of v 1, byte_of v 2, byte_of v 3]"
| "store_uint32 PdpEndian v = [byte_of v 2, byte_of v 3, byte_of v 0, byte_of v 1]"

text \<open>The constructor \<^verbatim>\<open>SingleSplit4Bytes(value) : single(value)\<close> and the member \<^verbatim>\<open>split\<close>.\<close>

datatype SingleSplit4Bytes = Storage "byte list"

definition SingleSplit4Bytes :: "byte_order \<Rightarrow> 32 word \<Rightarrow> SingleSplit4Bytes" where
  "SingleSplit4Bytes bo v = Storage (store_uint32 bo v)"

fun split :: "SingleSplit4Bytes \<Rightarrow> byte list" where
  "split (Storage bs) = bs"

definition isBigEndian :: "byte_order \<Rightarrow> bool" where
  "isBigEndian bo = (split (SingleSplit4Bytes bo 0x01020304) ! 0 = 1)"

text \<open>
  \<^verbatim>\<open>__builtin_bswap16\<close> and \<^verbatim>\<open>_byteswap_ushort\<close> are compiler intrinsics: both return their
  16-bit argument with its two bytes exchanged.
\<close>

definition bswap16 :: "16 word \<Rightarrow> 16 word" where
  "bswap16 v = push_bit 8 v OR drop_bit 8 v"

definition networkToHost :: "byte_order \<Rightarrow> 16 word \<Rightarrow> 16 word" where
  "networkToHost bo v = (if isBigEndian bo then v else bswap16 v)"

subsection \<open>Math: \<^verbatim>\<open>sinCos\<close>\<close>

text \<open>
  \<^verbatim>\<open>sinCos\<close> reads and writes the floating-point environment. The model keeps of it what the
  function touches: \<^verbatim>\<open>errno\<close> and the set of exception flags that are raised. \<^verbatim>\<open>float\<close> is
  left abstract (the type variable \<open>'f\<close>), and the mathematical library is a parameter:
  \<^verbatim>\<open>sin\<close>, \<^verbatim>\<open>cos\<close>, and \<^verbatim>\<open>sincosf\<close>, which gives the two results and the exceptions the
  computation raises.
\<close>

datatype fexcept = FE_INVALID | FE_DIVBYZERO | FE_OVERFLOW | FE_UNDERFLOW | FE_INEXACT

definition FE_ALL_EXCEPT :: "fexcept set" where
  "FE_ALL_EXCEPT = {FE_INVALID, FE_DIVBYZERO, FE_OVERFLOW, FE_UNDERFLOW, FE_INEXACT}"

record fenv =
  errno :: int
  raised :: "fexcept set"

record 'f libm =
  sin :: "'f \<Rightarrow> 'f"
  cos :: "'f \<Rightarrow> 'f"
  sincosf :: "'f \<Rightarrow> 'f \<times> 'f \<times> fexcept set"

definition feclearexcept :: "fexcept set \<Rightarrow> fenv \<Rightarrow> fenv" where
  "feclearexcept excepts env = env\<lparr>raised := raised env - excepts\<rparr>"

definition feraise :: "fexcept set \<Rightarrow> fenv \<Rightarrow> fenv" where
  "feraise excepts env = env\<lparr>raised := raised env \<union> excepts\<rparr>"

text \<open>\<^verbatim>\<open>fetestexcept(excepts)\<close>: those of \<open>excepts\<close> that are currently raised.\<close>

definition fetestexcept :: "fexcept set \<Rightarrow> fenv \<Rightarrow> fexcept set" where
  "fetestexcept excepts env = raised env \<inter> excepts"

text \<open>
  The two branches of \<^verbatim>\<open>#ifdef OS_WINDOWS ... #else ... #endif\<close>: \<open>os_windows\<close> tells whether
  the macro is defined.
\<close>

record 'f sinCos_result =
  ret :: bool
  outSin :: "'f"
  outCos :: "'f"

definition sinCos :: "bool \<Rightarrow> 'f libm \<Rightarrow> 'f \<Rightarrow> fenv \<Rightarrow> 'f sinCos_result \<times> fenv" where
  "sinCos os_windows m v env =
     (if os_windows then (\<lparr>ret = True, outSin = sin m v, outCos = cos m v\<rparr>, env)
      else
          (let env1 = env\<lparr>errno := 0\<rparr>;
               env2 = feclearexcept FE_ALL_EXCEPT env1;
               (s, c, ex) = sincosf m v;
               env3 = feraise ex env2
           in (\<lparr>ret = (fetestexcept {FE_INVALID, FE_DIVBYZERO, FE_OVERFLOW, FE_UNDERFLOW} env3 = {}),
                outSin = s, outCos = c\<rparr>, env3)))"

subsection \<open>\<^verbatim>\<open>readFile\<close>\<close>

text \<open>
  The file system is a map from paths to the contents of the files that can be opened for
  reading. Of \<^verbatim>\<open>std::ifstream\<close> the model keeps the three state bits, the bytes not yet
  read, and the count of the last unformatted read.
\<close>

type_synonym filesystem = "string \<rightharpoonup> byte list"

record ifstream =
  failbit :: bool
  eofbit :: bool
  badbit :: bool
  unread :: "byte list"
  last_count :: nat

text \<open>The constructor \<^verbatim>\<open>std::ifstream ifs(path, std::ifstream::binary)\<close>: a failed open sets \<^verbatim>\<open>failbit\<close>.\<close>

definition ifstream_open :: "filesystem \<Rightarrow> string \<Rightarrow> ifstream" where
  "ifstream_open fs path =
     (case fs path of
        None \<Rightarrow> \<lparr>failbit = True, eofbit = False, badbit = False, unread = [], last_count = 0\<rparr>
      | Some content \<Rightarrow>
          \<lparr>failbit = False, eofbit = False, badbit = False, unread = content, last_count = 0\<rparr>)"

definition good :: "ifstream \<Rightarrow> bool" where
  "good ifs = (\<not> failbit ifs \<and> \<not> eofbit ifs \<and> \<not> badbit ifs)"

text \<open>
  \<^verbatim>\<open>ifs.read(buf, n)\<close>: on a stream that is not good it sets \<^verbatim>\<open>failbit\<close> and extracts nothing;
  otherwise it extracts \<open>n\<close> bytes, or, when the end of the file comes first, what is left,
  and then sets \<^verbatim>\<open>eofbit\<close> and \<^verbatim>\<open>failbit\<close>. The bytes extracted are returned with
  the stream.
\<close>

definition read :: "nat \<Rightarrow> ifstream \<Rightarrow> byte list \<times> ifstream" where
  "read n ifs =
     (if \<not> good ifs then ([], ifs\<lparr>failbit := True, last_count := 0\<rparr>)
      else if n \<le> length (unread ifs)
      then (take n (unread ifs), ifs\<lparr>unread := drop n (unread ifs), last_count := n\<rparr>)
      else (unread ifs,
            ifs\<lparr>eofbit := True, failbit := True, unread := [], last_count := length (unread ifs)\<rparr>))"

definition gcount :: "ifstream \<Rightarrow> nat" where
  "gcount ifs = last_count ifs"

text \<open>The loop of \<^verbatim>\<open>readFile\<close>, with \<^verbatim>\<open>sizeof(buf) = 256\<close>.\<close>

function readFile_loop :: "ifstream \<Rightarrow> byte list \<Rightarrow> byte list" where
  "readFile_loop ifs content =
     (if good ifs
      then (let (buf, ifs') = read 256 ifs;
                n = gcount ifs'
            in readFile_loop ifs' (if n > 0 then content @ take n buf else content))
      else content)"
  by pat_completeness auto
termination
  by (relation "measure (\<lambda>(ifs, content). 2 * length (unread ifs) + (if good ifs then 1 else 0))")
     (auto simp: read_def good_def split: if_splits)

declare readFile_loop.simps [simp del]

definition readFile :: "filesystem \<Rightarrow> string \<Rightarrow> byte list" where
  "readFile fs path = readFile_loop (ifstream_open fs path) []"

subsection \<open>Encoding converter: \<^verbatim>\<open>utf8ToUtf16\<close> and \<^verbatim>\<open>utf16ToUtf8\<close>\<close>

text \<open>
  The three functions hand their argument to \<^verbatim>\<open>std::wstring_convert\<close> over the facet
  \<^verbatim>\<open>std::codecvt_utf8_utf16<Elem>\<close> and turn a \<^verbatim>\<open>std::range_error\<close> into the empty string.
  The facet and the converter belong to the C++ standard library. They are modelled here as
  ISO C++ describes them: a conversion between UTF-8 and UTF-16 in which every element of
  the wide string holds one UTF-16 code unit, whatever the width of \<^verbatim>\<open>Elem\<close>, with the
  default \<^verbatim>\<open>Maxcode\<close> of \<open>0x10FFFF\<close> and no byte order mark handling. The points on which
  libstdc++ and libc++ differ are parameters of the model, collected in the record
  \<open>stdlib\<close> below; no other difference between libraries is modelled. Bytes, code units
  and code points are natural numbers inside the facet.
\<close>

datatype exception = range_error

text \<open>
  Reading one code point from UTF-8. The lead byte fixes the length of the sequence. When
  fewer bytes are left than the lead byte announces, the sequence is incomplete, whatever
  the bytes that are there; otherwise a wrong continuation byte, an overlong form or a
  value above \<open>0x10FFFF\<close> makes it invalid. The three bytes that encode a surrogate
  (\<open>ED A0 80\<close> to \<open>ED BF BF\<close>) are invalid in libc++; libstdc++ 12 has no such check and
  reads them as the code point they spell. \<open>surr\<close> tells whether they are read.
\<close>

datatype read_result = CodePoint nat "nat list" | incomplete_mb_character | invalid_mb_sequence

definition is_continuation :: "nat \<Rightarrow> bool" where
  "is_continuation b = (0x80 \<le> b \<and> b \<le> 0xBF)"

definition utf8_read :: "bool \<Rightarrow> nat list \<Rightarrow> read_result" where
  "utf8_read surr bs =
     (case bs of
        [] \<Rightarrow> incomplete_mb_character
      | b1 # rest \<Rightarrow>
          if b1 < 0x80 then CodePoint b1 rest
          else if b1 < 0xC2 then invalid_mb_sequence
          else if b1 < 0xE0 then
            (case rest of
               b2 # r \<Rightarrow>
                 if is_continuation b2 then CodePoint ((b1 - 0xC0) * 64 + (b2 - 0x80)) r
                 else invalid_mb_sequence
             | _ \<Rightarrow> incomplete_mb_character)
          else if b1 < 0xF0 then
            (case rest of
               b2 # b3 # r \<Rightarrow>
                 if (if b1 = 0xE0 then 0xA0 else 0x80) \<le> b2
                    \<and> b2 \<le> (if b1 = 0xED \<and> \<not> surr then 0x9F else 0xBF)
                    \<and> is_continuation b3
                 then CodePoint ((b1 - 0xE0) * 4096 + (b2 - 0x80) * 64 + (b3 - 0x80)) r
                 else invalid_mb_sequence
             | _ \<Rightarrow> incomplete_mb_character)
          else if b1 < 0xF5 then
            (case rest of
               b2 # b3 # b4 # r \<Rightarrow>
                 if (if b1 = 0xF0 then 0x90 else 0x80) \<le> b2
                    \<and> b2 \<le> (if b1 = 0xF4 then 0x8F else 0xBF)
                    \<and> is_continuation b3 \<and> is_continuation b4
                 then CodePoint ((b1 - 0xF0) * 262144 + (b2 - 0x80) * 4096 + (b3 - 0x80) * 64
                                 + (b4 - 0x80)) r
                 else invalid_mb_sequence
             | _ \<Rightarrow> incomplete_mb_character)
          else invalid_mb_sequence)"

text \<open>
  The result of \<^verbatim>\<open>codecvt::in\<close> and \<^verbatim>\<open>codecvt::out\<close>: what was converted, and whether the
  conversion came to the end of the input (\<open>ok\<close>), stopped at an incomplete sequence
  (\<open>partial\<close>) or at an invalid one (\<open>error\<close>).
\<close>

datatype result = ok | partial | error

function utf8_in :: "bool \<Rightarrow> nat list \<Rightarrow> nat list \<times> result" where
  "utf8_in surr bs =
     (if bs = [] then ([], ok)
      else (case utf8_read surr bs of
              CodePoint c rest \<Rightarrow> (let (cs, r) = utf8_in surr rest in (c # cs, r))
            | incomplete_mb_character \<Rightarrow> ([], partial)
            | invalid_mb_sequence \<Rightarrow> ([], error)))"
  by pat_completeness auto
termination
  by (relation "measure (\<lambda>(surr, bs). length bs)")
     (auto simp: utf8_read_def split: list.splits if_splits)

declare utf8_in.simps [simp del]

text \<open>Writing one code point as UTF-16, with a surrogate pair from \<open>U+10000\<close> on.\<close>

definition utf16_write :: "nat \<Rightarrow> nat list" where
  "utf16_write c =
     (if c < 0x10000 then [c]
      else [0xD800 + (c - 0x10000) div 1024, 0xDC00 + (c - 0x10000) mod 1024])"

text \<open>Reading one code point from UTF-16 code units, and writing one as UTF-8.\<close>

definition is_high_surrogate :: "nat \<Rightarrow> bool" where
  "is_high_surrogate c = (0xD800 \<le> c \<and> c < 0xDC00)"

definition is_low_surrogate :: "nat \<Rightarrow> bool" where
  "is_low_surrogate c = (0xDC00 \<le> c \<and> c < 0xE000)"

definition utf16_read :: "nat list \<Rightarrow> read_result" where
  "utf16_read us =
     (case us of
        [] \<Rightarrow> incomplete_mb_character
      | c # rest \<Rightarrow>
          if is_high_surrogate c then
            (case rest of
               [] \<Rightarrow> incomplete_mb_character
             | c2 # r \<Rightarrow>
                 if is_low_surrogate c2
                 then CodePoint (0x10000 + (c - 0xD800) * 1024 + (c2 - 0xDC00)) r
                 else invalid_mb_sequence)
          else if is_low_surrogate c then invalid_mb_sequence
          else if c > 0x10FFFF then invalid_mb_sequence
          else CodePoint c rest)"

function utf16_out :: "nat list \<Rightarrow> nat list \<times> result" where
  "utf16_out us =
     (if us = [] then ([], ok)
      else (case utf16_read us of
              CodePoint c rest \<Rightarrow> (let (cs, r) = utf16_out rest in (c # cs, r))
            | incomplete_mb_character \<Rightarrow> ([], partial)
            | invalid_mb_sequence \<Rightarrow> ([], error)))"
  by pat_completeness auto
termination
  by (relation "measure length")
     (auto simp: utf16_read_def split: list.splits if_splits)

declare utf16_out.simps [simp del]

definition utf8_write :: "nat \<Rightarrow> nat list" where
  "utf8_write c =
     (if c < 0x80 then [c]
      else if c < 0x800 then [0xC0 + c div 64, 0x80 + c mod 64]
      else if c < 0x10000 then [0xE0 + c div 4096, 0x80 + c div 64 mod 64, 0x80 + c mod 64]
      else [0xF0 + c div 262144, 0x80 + c div 4096 mod 64, 0x80 + c div 64 mod 64, 0x80 + c mod 64])"

text \<open>Unicode scalar values: the code points that are not surrogates.\<close>

definition is_scalar :: "nat \<Rightarrow> bool" where
  "is_scalar c = (c < 0xD800 \<or> (0xE000 \<le> c \<and> c < 0x110000))"

text \<open>The UTF-8 encoding of a text given by its code points.\<close>

definition utf8_encode :: "nat list \<Rightarrow> byte list" where
  "utf8_encode cps = map of_nat (concat (map utf8_write cps))"

text \<open>
  Three things differ between the implementations of the library, and are the parameters
  of the model.
  \<^item> ISO C++ defines the facet on UTF-16 code units only and leaves open what it makes of a
    \<^verbatim>\<open>char32_t\<close> element above \<open>0xFFFF\<close>: libstdc++ takes the whole value of the element
    (\<open>WholeElement\<close>), libc++ and the Microsoft library convert it to 16 bits first
    (\<open>Low16\<close>).
  \<^item> When the input ends inside a sequence the facet reports \<open>partial\<close>. libc++ and the
    Microsoft library make that a \<^verbatim>\<open>std::range_error\<close> (\<open>incomplete_throws\<close>); libstdc++
    returns what was converted up to there, and \<^verbatim>\<open>converted()\<close> tells how far it got.
  \<^item> Whether the facet reads the UTF-8 bytes of a surrogate (\<open>surrogates_accepted\<close>), as
    said at \<open>utf8_read\<close>.
\<close>

datatype elem_read = WholeElement | Low16

record stdlib =
  elem_read :: elem_read
  incomplete_throws :: bool
  surrogates_accepted :: bool

text \<open>The two libraries: libstdc++ (release 12) and libc++.\<close>

definition libstdcxx :: stdlib where
  "libstdcxx = \<lparr>elem_read = WholeElement, incomplete_throws = False, surrogates_accepted = True\<rparr>"

definition libcxx :: stdlib where
  "libcxx = \<lparr>elem_read = Low16, incomplete_throws = True, surrogates_accepted = False\<rparr>"

fun read_elem :: "elem_read \<Rightarrow> 32 word \<Rightarrow> nat" where
  "read_elem WholeElement w = unat w"
| "read_elem Low16 w = unat (ucast w :: 16 word)"

text \<open>
  \<^verbatim>\<open>wstring_convert::from_bytes\<close> and \<^verbatim>\<open>wstring_convert::to_bytes\<close>, constructed without
  error strings: a conversion error is thrown as \<^verbatim>\<open>std::range_error\<close>. \<open>to_bytes\<close> takes the
  values of the elements as the facet reads them.
\<close>

definition converted :: "stdlib \<Rightarrow> 'a list \<times> result \<Rightarrow> exception + 'a list" where
  "converted lib r =
     (case r of
        (out, ok) \<Rightarrow> Inr out
      | (out, partial) \<Rightarrow> if incomplete_throws lib then Inl range_error else Inr out
      | (out, error) \<Rightarrow> Inl range_error)"

definition from_bytes :: "stdlib \<Rightarrow> byte list \<Rightarrow> exception + 'w::len word list" where
  "from_bytes lib str =
     (case converted lib (utf8_in (surrogates_accepted lib) (map unat str)) of
        Inl e \<Rightarrow> Inl e
      | Inr cps \<Rightarrow> Inr (map of_nat (concat (map utf16_write cps))))"

definition to_bytes :: "stdlib \<Rightarrow> nat list \<Rightarrow> exception + byte list" where
  "to_bytes lib units =
     (case converted lib (utf16_out units) of
        Inl e \<Rightarrow> Inl e
      | Inr cps \<Rightarrow> Inr (utf8_encode cps))"

text \<open>
  The three functions of the header. \<^verbatim>\<open>wchar_t\<close> is a word of any width \<open>'w\<close>; the two
  overloads of \<^verbatim>\<open>utf16ToUtf8\<close> are told apart by their argument type.
\<close>

definition utf8ToUtf16 :: "stdlib \<Rightarrow> byte list \<Rightarrow> 'w::len word list" where
  "utf8ToUtf16 lib str = (case from_bytes lib str of Inl range_error \<Rightarrow> [] | Inr wide \<Rightarrow> wide)"

definition utf16ToUtf8_u16string :: "stdlib \<Rightarrow> 16 word list \<Rightarrow> byte list" where
  "utf16ToUtf8_u16string lib str =
     (case to_bytes lib (map unat str) of Inl range_error \<Rightarrow> [] | Inr narrow \<Rightarrow> narrow)"

definition utf16ToUtf8_u32string :: "stdlib \<Rightarrow> 32 word list \<Rightarrow> byte list" where
  "utf16ToUtf8_u32string lib str =
     (case to_bytes lib (map (read_elem (elem_read lib)) str) of
        Inl range_error \<Rightarrow> []
      | Inr narrow \<Rightarrow> narrow)"


section \<open>Properties\<close>

subsection \<open>Sanitizer\<close>

lemma bit7: "bit (uint (v::byte)) 7 \<longleftrightarrow> 128 \<le> uint v"
proof -
  have "uint v < 256" using uint_lt2p[of v] by simp
  moreover have "0 \<le> uint v" by simp
  ultimately show ?thesis
    unfolding bit_iff_odd by (cases "128 \<le> uint v") (simp_all add: div_pos_pos_trivial, presburger)
qed

lemma sint_byte: "sint (v::byte) = (if uint v < 128 then uint v else uint v - 256)"
proof -
  have "sint v = signed_take_bit 7 (uint v)" by (simp add: sint_uint)
  also have "\<dots> = take_bit 8 (uint v) - 256 * of_bool (bit (uint v) 7)"
    using signed_take_bit_eq_take_bit_minus[of 7 "uint v"] by simp
  also have "take_bit 8 (uint v) = uint v"
    using uint_lt2p[of v] by (simp add: take_bit_int_eq_self)
  finally show ?thesis by (simp add: bit7)
qed

lemma uint_byte_bounds: "0 \<le> uint (v::byte) \<and> uint v < 256"
  using uint_lt2p[of v] by simp

lemma char_val_zero: "char_val sg v = 0 \<longleftrightarrow> v = 0"
  using uint_byte_bounds[of v] by (auto simp: char_val_def sint_byte uint_0_iff)

lemma char_val_quote: "char_val sg v = 34 \<longleftrightarrow> v = 34"
proof -
  have "uint v = 34 \<longleftrightarrow> v = 34"
    by (simp add: word_uint_eq_iff)
  then show ?thesis
    using uint_byte_bounds[of v] by (auto simp: char_val_def sint_byte)
qed

lemma char_val_range: "(char_val sg v < 32 \<or> char_val sg v > 126) \<longleftrightarrow> \<not> printable v"
  using uint_byte_bounds[of v] by (auto simp: char_val_def sint_byte printable_def)

lemma char_val_space: "\<not> char_val sg 32 < 32" "\<not> char_val sg 32 > 126"
  by (simp_all add: char_val_def)

lemma escape_body_eq:
  assumes "c < length (bytes m)"
  shows "\<exists>m' L. escape_body sg c m = Inr m' \<and> bytes m' = (bytes m)[c := clean (bytes m ! c)]
             \<and> log m' = log m @ L \<and> set L \<subseteq> {Rd c, Wr c}"
proof (cases "bytes m ! c = 34")
  case True
  with assms show ?thesis
    by (simp add: escape_body_def escape_quote_def escape_range_def rd_def wr_def char_val_def clean_def)
next
  case False
  show ?thesis
  proof (cases "printable (bytes m ! c)")
    case True
    with False assms char_val_range[of sg "bytes m ! c"] show ?thesis
      by (simp add: escape_body_def escape_quote_def escape_range_def rd_def wr_def char_val_quote clean_def)
  next
    case np: False
    with False assms char_val_range[of sg "bytes m ! c"] show ?thesis
      by (auto simp add: escape_body_def escape_quote_def escape_range_def rd_def wr_def char_val_quote clean_def)
  qed
qed

lemma escape_loop_eq:
  assumes "c \<le> n" "n < length (bytes m)" "bytes m ! n = 0"
    and "\<forall>i. c \<le> i \<and> i < n \<longrightarrow> bytes m ! i \<noteq> 0"
  shows "\<exists>m' L. escape_loop sg c m = Inr m' \<and> log m' = log m @ L
           \<and> length (bytes m') = length (bytes m)
           \<and> (\<forall>i < length (bytes m). bytes m' ! i = (if c \<le> i \<and> i < n then clean (bytes m ! i) else bytes m ! i))
           \<and> (\<forall>a \<in> set L. in_scan c n a)"
  using assms
proof (induction "n - c" arbitrary: c m)
  case 0
  then have cn: "c = n" by simp
  with 0 show ?case
    by (subst escape_loop.simps) (auto simp add: rd_def char_val_zero in_scan_def)
next
  case (Suc k)
  then have c_lt: "c < n" and c_len: "c < length (bytes m)" and nz: "bytes m ! c \<noteq> 0" by auto
  let ?m1 = "m\<lparr>log := log m @ [Rd c]\<rparr>"
  from escape_body_eq[of c ?m1 sg] c_len obtain m2 L1 where
    b: "escape_body sg c ?m1 = Inr m2"
    and m2b: "bytes m2 = (bytes m)[c := clean (bytes m ! c)]"
    and m2l: "log m2 = log m @ [Rd c] @ L1"
    and L1: "set L1 \<subseteq> {Rd c, Wr c}" by auto
  have "\<exists>m' L. escape_loop sg (c + 1) m2 = Inr m' \<and> log m' = log m2 @ L
           \<and> length (bytes m') = length (bytes m2)
           \<and> (\<forall>i < length (bytes m2). bytes m' ! i = (if c + 1 \<le> i \<and> i < n then clean (bytes m2 ! i) else bytes m2 ! i))
           \<and> (\<forall>a \<in> set L. in_scan (c + 1) n a)"
  proof (rule Suc.hyps(1))
    show "k = n - (c + 1)" using Suc.hyps(2) by simp
    show "c + 1 \<le> n" using c_lt by simp
    show "n < length (bytes m2)" using Suc.prems m2b by simp
    show "bytes m2 ! n = 0" using Suc.prems c_lt m2b by simp
    show "\<forall>i. c + 1 \<le> i \<and> i < n \<longrightarrow> bytes m2 ! i \<noteq> 0" using Suc.prems m2b by simp
  qed
  then obtain m' L where
    r: "escape_loop sg (c + 1) m2 = Inr m'"
    and l: "log m' = log m2 @ L"
    and len: "length (bytes m') = length (bytes m)"
    and bs: "\<forall>i < length (bytes m). bytes m' ! i = (if c + 1 \<le> i \<and> i < n then clean (bytes m2 ! i) else bytes m2 ! i)"
    and L: "\<forall>a \<in> set L. in_scan (c + 1) n a"
    using m2b by auto
  have e: "escape_loop sg c m = Inr m'"
    using c_len nz b r by (subst escape_loop.simps) (simp add: rd_def char_val_zero)
  have l': "log m' = log m @ ([Rd c] @ L1 @ L)" using l m2l by simp
  have bs': "\<forall>i < length (bytes m). bytes m' ! i = (if c \<le> i \<and> i < n then clean (bytes m ! i) else bytes m ! i)"
  proof (intro allI impI)
    fix i assume i: "i < length (bytes m)"
    consider "i < c" | "i = c" | "c + 1 \<le> i" by linarith
    then show "bytes m' ! i = (if c \<le> i \<and> i < n then clean (bytes m ! i) else bytes m ! i)"
      using bs i m2b c_lt by cases (simp_all add: nth_list_update)
  qed
  have L': "\<forall>a \<in> set ([Rd c] @ L1 @ L). in_scan c n a"
    using L L1 c_lt by (auto simp: in_scan_def)
  from e len bs' L' l' show ?case by blast
qed

lemma first_nul_eqI:
  assumes "n < length xs" "xs ! n = 0" "\<forall>i<n. xs ! i \<noteq> 0"
  shows "first_nul xs = n"
proof -
  have "takeWhile (\<lambda>b. b \<noteq> 0) xs = take n xs"
    using assms by (intro takeWhile_eq_take_P_nth) simp_all
  with assms(1) show ?thesis by (simp add: first_nul_def)
qed

lemma first_nul_props:
  assumes "k < length xs" "xs ! k = 0"
  shows "first_nul xs \<le> k" "xs ! first_nul xs = 0" "\<forall>i < first_nul xs. xs ! i \<noteq> 0"
proof -
  let ?P = "\<lambda>b::byte. b \<noteq> 0"
  show le: "first_nul xs \<le> k"
  proof (rule ccontr)
    assume "\<not> first_nul xs \<le> k"
    then have "k < length (takeWhile ?P xs)" by (simp add: first_nul_def)
    then have "takeWhile ?P xs ! k \<in> set (takeWhile ?P xs)" and "takeWhile ?P xs ! k = xs ! k"
      by (rule nth_mem, rule takeWhile_nth)
    with assms(2) show False by (auto dest: set_takeWhileD)
  qed
  with assms(1) have "length (takeWhile ?P xs) < length xs" by (simp add: first_nul_def)
  from nth_length_takeWhile[OF this] show "xs ! first_nul xs = 0" by (simp add: first_nul_def)
  show "\<forall>i < first_nul xs. xs ! i \<noteq> 0"
  proof (intro allI impI)
    fix i assume "i < first_nul xs"
    then have i: "i < length (takeWhile ?P xs)" by (simp add: first_nul_def)
    then have "takeWhile ?P xs ! i \<in> set (takeWhile ?P xs)" by (rule nth_mem)
    then have "?P (takeWhile ?P xs ! i)" by (auto dest: set_takeWhileD)
    with i show "xs ! i \<noteq> 0" by (simp add: takeWhile_nth)
  qed
qed

lemma clean_nonzero: "clean b \<noteq> 0"
  by (auto simp: clean_def printable_def)

lemma clean_clean: "clean (clean b) = clean b"
  by (auto simp: clean_def printable_def)

lemma clean_printable: "printable (clean b) \<and> clean b \<noteq> 34"
  by (auto simp: clean_def printable_def)

lemma escape_eq:
  assumes "1 \<le> unat sz" "unat sz \<le> length str"
  defines "n \<equiv> first_nul (str[unat sz - 1 := 0])"
  shows "\<exists>m L. escape sg str sz = Inr m
           \<and> log m = Wr (unat sz - 1) # L \<and> (\<forall>a \<in> set L. in_scan 0 n a)
           \<and> length (bytes m) = length str
           \<and> (\<forall>i < length str. bytes m ! i =
                 (if i < n then clean (str ! i) else (str[unat sz - 1 := 0]) ! i))
           \<and> n < unat sz \<and> first_nul (bytes m) = n"
proof -
  let ?k = "unat sz - 1"
  let ?s = "str[?k := 0]"
  let ?m0 = "\<lparr>bytes = ?s, log = [Wr ?k]\<rparr>"
  from assms(1) have "sz \<noteq> 0" by auto
  then have k: "unat (sz - 1) = ?k" by (simp add: unat_minus_one)
  have klen: "?k < length str" using assms(1,2) by simp
  then have w: "wr (unat (sz - 1)) 0 \<lparr>bytes = str, log = []\<rparr> = Inr ?m0"
    by (simp add: wr_def k)
  have kz: "?s ! ?k = 0" using klen by simp
  from first_nul_props[of ?k ?s] klen kz
  have nk: "n \<le> ?k" and nz: "?s ! n = 0" and nn: "\<forall>i<n. ?s ! i \<noteq> 0"
    by (simp_all add: n_def)
  have "\<exists>m' L. escape_loop sg 0 ?m0 = Inr m' \<and> log m' = log ?m0 @ L
           \<and> length (bytes m') = length (bytes ?m0)
           \<and> (\<forall>i < length (bytes ?m0). bytes m' ! i = (if 0 \<le> i \<and> i < n then clean (bytes ?m0 ! i) else bytes ?m0 ! i))
           \<and> (\<forall>a \<in> set L. in_scan 0 n a)"
    using nk klen nz nn by (intro escape_loop_eq) simp_all
  then obtain m L where
    r: "escape_loop sg 0 ?m0 = Inr m" and l: "log m = Wr ?k # L"
    and len: "length (bytes m) = length str"
    and bs: "\<forall>i < length str. bytes m ! i = (if i < n then clean (?s ! i) else ?s ! i)"
    and L: "\<forall>a \<in> set L. in_scan 0 n a"
    by auto
  have e: "escape sg str sz = Inr m" using w r by (simp add: escape_def)
  have bs': "\<forall>i < length str. bytes m ! i = (if i < n then clean (str ! i) else ?s ! i)"
    using bs nk by (auto simp: nth_list_update)
  have nlt: "n < unat sz" using nk assms(1) by simp
  have fn: "first_nul (bytes m) = n"
  proof (rule first_nul_eqI)
    show "n < length (bytes m)" using len nk klen by simp
    show "bytes m ! n = 0" using bs' nz nk klen by simp
    show "\<forall>i<n. bytes m ! i \<noteq> 0" using bs' nk klen by (simp add: clean_nonzero)
  qed
  from e l L len bs' nlt fn show ?thesis by blast
qed

text \<open>
  Claim C4. Let \<open>sz \<ge> 1\<close> be the declared capacity of a buffer that holds at least \<open>sz\<close>
  bytes. Then \<^verbatim>\<open>escape\<close> returns normally, the byte at index \<open>sz - 1\<close> is NUL, the first
  NUL of the result is where the first NUL of the input is once its last byte is forced to
  NUL, and every byte before it is an ASCII space if it was a double quote or outside
  \<open>[32, 126]\<close>, and unchanged otherwise. This holds whether \<^verbatim>\<open>char\<close> is signed or not.
\<close>

theorem escape_sanitizes:
  assumes "1 \<le> unat sz" and "unat sz \<le> length str"
  shows "\<exists>m. escape sg str sz = Inr m
           \<and> length (bytes m) = length str
           \<and> bytes m ! (unat sz - 1) = 0
           \<and> first_nul (bytes m) = first_nul (str[unat sz - 1 := 0])
           \<and> first_nul (bytes m) \<le> unat sz - 1
           \<and> (\<forall>i < first_nul (bytes m).
                 bytes m ! i = (if str ! i = 34 \<or> \<not> (32 \<le> uint (str ! i) \<and> uint (str ! i) \<le> 126)
                                then 32 else str ! i))"
proof -
  let ?n = "first_nul (str[unat sz - 1 := 0])"
  from escape_eq[OF assms, of sg] obtain m where
    e: "escape sg str sz = Inr m" and len: "length (bytes m) = length str"
    and bs: "\<forall>i < length str. bytes m ! i =
                 (if i < ?n then clean (str ! i) else (str[unat sz - 1 := 0]) ! i)"
    and n: "?n < unat sz" and fn: "first_nul (bytes m) = ?n"
    by blast
  have k: "unat sz - 1 < length str" "\<not> unat sz - 1 < ?n" using assms n by simp_all
  with bs have last: "bytes m ! (unat sz - 1) = 0" by simp
  have pre: "\<forall>i < first_nul (bytes m).
                 bytes m ! i = (if str ! i = 34 \<or> \<not> (32 \<le> uint (str ! i) \<and> uint (str ! i) \<le> 126)
                                then 32 else str ! i)"
    using bs fn n assms(2) by (simp add: clean_def printable_def)
  have "first_nul (bytes m) \<le> unat sz - 1" using fn n by simp
  with e len last fn pre show ?thesis by blast
qed

theorem escape_sanitizes_witness:
  "1 \<le> unat (9 :: 64 word) \<and> unat (9 :: 64 word) \<le> length [0x61, 0x62, 0x22, 0x63, 0x64, 0x01, 0x65, 0x66, 0x67 :: byte]
   \<and> (\<exists>m. escape True [0x61, 0x62, 0x22, 0x63, 0x64, 0x01, 0x65, 0x66, 0x67 :: byte] 9 = Inr m
           \<and> length (bytes m) = length [0x61, 0x62, 0x22, 0x63, 0x64, 0x01, 0x65, 0x66, 0x67 :: byte]
           \<and> bytes m ! (unat (9 :: 64 word) - 1) = 0
           \<and> first_nul (bytes m) = first_nul ([0x61, 0x62, 0x22, 0x63, 0x64, 0x01, 0x65, 0x66, 0x67 :: byte][unat (9 :: 64 word) - 1 := 0])
           \<and> first_nul (bytes m) \<le> unat (9 :: 64 word) - 1
           \<and> (\<forall>i < first_nul (bytes m).
                 bytes m ! i = (if [0x61, 0x62, 0x22, 0x63, 0x64, 0x01, 0x65, 0x66, 0x67 :: byte] ! i = 34 \<or> \<not> (32 \<le> uint ([0x61, 0x62, 0x22, 0x63, 0x64, 0x01, 0x65, 0x66, 0x67 :: byte] ! i) \<and> uint ([0x61, 0x62, 0x22, 0x63, 0x64, 0x01, 0x65, 0x66, 0x67 :: byte] ! i) \<le> 126)
                                then 32 else [0x61, 0x62, 0x22, 0x63, 0x64, 0x01, 0x65, 0x66, 0x67 :: byte] ! i)))"
proof -
  have h1: "1 \<le> unat (9 :: 64 word)" by simp
  have h2: "unat (9 :: 64 word) \<le> length [0x61, 0x62, 0x22, 0x63, 0x64, 0x01, 0x65, 0x66, 0x67 :: byte]" by simp
  show ?thesis by (intro conjI h1 h2 escape_sanitizes [OF h1 h2])
qed

text \<open>
  Claim C5. Under the same precondition no access of \<^verbatim>\<open>escape\<close> leaves the buffer: every
  write is at an index below \<open>sz\<close>, every read is at an index not beyond the first NUL
  present after the last byte is forced to NUL, that NUL is itself below \<open>sz\<close>, and the
  bytes from index \<open>sz\<close> on are left as they were.
\<close>

theorem escape_in_bounds:
  assumes "1 \<le> unat sz" and "unat sz \<le> length str"
  shows "\<exists>m. escape sg str sz = Inr m
           \<and> (\<forall>a \<in> set (log m).
                 case a of Wr i \<Rightarrow> i < unat sz
                         | Rd i \<Rightarrow> i \<le> first_nul (str[unat sz - 1 := 0]))
           \<and> first_nul (str[unat sz - 1 := 0]) < unat sz
           \<and> drop (unat sz) (bytes m) = drop (unat sz) str"
proof -
  let ?n = "first_nul (str[unat sz - 1 := 0])"
  from escape_eq[OF assms, of sg] obtain m L where
    e: "escape sg str sz = Inr m" and l: "log m = Wr (unat sz - 1) # L"
    and L: "\<forall>a \<in> set L. in_scan 0 ?n a"
    and len: "length (bytes m) = length str"
    and bs: "\<forall>i < length str. bytes m ! i =
                 (if i < ?n then clean (str ! i) else (str[unat sz - 1 := 0]) ! i)"
    and n: "?n < unat sz"
    by blast
  have acc: "\<forall>a \<in> set (log m). case a of Wr i \<Rightarrow> i < unat sz | Rd i \<Rightarrow> i \<le> ?n"
  proof
    fix a assume "a \<in> set (log m)"
    with l have "a = Wr (unat sz - 1) \<or> a \<in> set L" by simp
    then show "case a of Wr i \<Rightarrow> i < unat sz | Rd i \<Rightarrow> i \<le> ?n"
    proof
      assume "a = Wr (unat sz - 1)"
      with assms(1) show ?thesis by simp
    next
      assume "a \<in> set L"
      with L have "in_scan 0 ?n a" by blast
      with n show ?thesis by (cases a) (simp_all add: in_scan_def)
    qed
  qed
  have "drop (unat sz) (bytes m) = drop (unat sz) str"
    using len bs n by (intro nth_equalityI) simp_all
  with e acc n show ?thesis by blast
qed

theorem escape_in_bounds_witness:
  "1 \<le> unat (9 :: 64 word) \<and> unat (9 :: 64 word) \<le> length [0x61, 0x62, 0x22, 0x63, 0x64, 0x01, 0x65, 0x66, 0x67 :: byte]
   \<and> (\<exists>m. escape True [0x61, 0x62, 0x22, 0x63, 0x64, 0x01, 0x65, 0x66, 0x67 :: byte] 9 = Inr m
           \<and> (\<forall>a \<in> set (log m).
                 case a of Wr i \<Rightarrow> i < unat (9 :: 64 word)
                         | Rd i \<Rightarrow> i \<le> first_nul ([0x61, 0x62, 0x22, 0x63, 0x64, 0x01, 0x65, 0x66, 0x67 :: byte][unat (9 :: 64 word) - 1 := 0]))
           \<and> first_nul ([0x61, 0x62, 0x22, 0x63, 0x64, 0x01, 0x65, 0x66, 0x67 :: byte][unat (9 :: 64 word) - 1 := 0]) < unat (9 :: 64 word)
           \<and> drop (unat (9 :: 64 word)) (bytes m) = drop (unat (9 :: 64 word)) [0x61, 0x62, 0x22, 0x63, 0x64, 0x01, 0x65, 0x66, 0x67 :: byte])"
proof -
  have h1: "1 \<le> unat (9 :: 64 word)" by simp
  have h2: "unat (9 :: 64 word) \<le> length [0x61, 0x62, 0x22, 0x63, 0x64, 0x01, 0x65, 0x66, 0x67 :: byte]" by simp
  show ?thesis by (intro conjI h1 h2 escape_in_bounds [OF h1 h2])
qed

text \<open>
  Claim C10. \<^verbatim>\<open>escape\<close> is idempotent on the buffer contents: a second application
  leaves the bytes of the first result as they are, since there the byte at index
  \<open>sz - 1\<close> is NUL and every byte before the first NUL is printable ASCII other than a
  double quote.
\<close>

theorem escape_idempotent:
  assumes "1 \<le> unat sz" and "unat sz \<le> length str"
  shows "\<exists>m m2. escape sg str sz = Inr m \<and> escape sg (bytes m) sz = Inr m2
           \<and> bytes m2 = bytes m
           \<and> bytes m ! (unat sz - 1) = 0
           \<and> (\<forall>i < first_nul (bytes m).
                 32 \<le> uint (bytes m ! i) \<and> uint (bytes m ! i) \<le> 126 \<and> bytes m ! i \<noteq> 34)"
proof -
  let ?n = "first_nul (str[unat sz - 1 := 0])"
  from escape_eq[OF assms, of sg] obtain m where
    e: "escape sg str sz = Inr m" and len: "length (bytes m) = length str"
    and bs: "\<forall>i < length str. bytes m ! i =
                 (if i < ?n then clean (str ! i) else (str[unat sz - 1 := 0]) ! i)"
    and n: "?n < unat sz" and fn: "first_nul (bytes m) = ?n"
    by blast
  have k: "unat sz - 1 < length str" "\<not> unat sz - 1 < ?n" using assms n by simp_all
  with bs have last: "bytes m ! (unat sz - 1) = 0" by simp
  then have same: "(bytes m)[unat sz - 1 := 0] = bytes m"
    by (metis list_update_id)
  have a2: "unat sz \<le> length (bytes m)" using assms(2) len by simp
  from escape_eq[OF assms(1) a2, of sg] same fn obtain m2 where
    e2: "escape sg (bytes m) sz = Inr m2" and len2: "length (bytes m2) = length (bytes m)"
    and bs2: "\<forall>i < length (bytes m). bytes m2 ! i =
                 (if i < ?n then clean (bytes m ! i) else bytes m ! i)"
    by auto
  have "bytes m2 = bytes m"
  proof (rule nth_equalityI)
    show "length (bytes m2) = length (bytes m)" by (rule len2)
  next
    fix i assume "i < length (bytes m2)"
    then have i: "i < length str" using len len2 by simp
    show "bytes m2 ! i = bytes m ! i"
      using bs2 bs i len by (simp add: clean_clean)
  qed
  moreover have "\<forall>i < first_nul (bytes m).
                 32 \<le> uint (bytes m ! i) \<and> uint (bytes m ! i) \<le> 126 \<and> bytes m ! i \<noteq> 34"
    using bs fn n assms(2) clean_printable by (simp add: printable_def)
  ultimately show ?thesis using e e2 last by blast
qed

theorem escape_idempotent_witness:
  "1 \<le> unat (9 :: 64 word) \<and> unat (9 :: 64 word) \<le> length [0x61, 0x62, 0x22, 0x63, 0x64, 0x01, 0x65, 0x66, 0x67 :: byte]
   \<and> (\<exists>m m2. escape True [0x61, 0x62, 0x22, 0x63, 0x64, 0x01, 0x65, 0x66, 0x67 :: byte] 9 = Inr m \<and> escape True (bytes m) 9 = Inr m2
           \<and> bytes m2 = bytes m
           \<and> bytes m ! (unat (9 :: 64 word) - 1) = 0
           \<and> (\<forall>i < first_nul (bytes m).
                 32 \<le> uint (bytes m ! i) \<and> uint (bytes m ! i) \<le> 126 \<and> bytes m ! i \<noteq> 34))"
proof -
  have h1: "1 \<le> unat (9 :: 64 word)" by simp
  have h2: "unat (9 :: 64 word) \<le> length [0x61, 0x62, 0x22, 0x63, 0x64, 0x01, 0x65, 0x66, 0x67 :: byte]" by simp
  show ?thesis by (intro conjI h1 h2 escape_idempotent [OF h1 h2])
qed

text \<open>The buffer of the specification's example, and one with bytes above 127.\<close>

lemma escape_example:
  "map_sum id bytes (escape True [0x61, 0x62, 0x22, 0x63, 0x64, 0x01, 0x65, 0x66, 0x67] 9)
     = Inr [0x61, 0x62, 0x20, 0x63, 0x64, 0x20, 0x65, 0x66, 0]"
  by (simp add: escape_def wr_def rd_def escape_loop.simps escape_body_def escape_quote_def escape_range_def char_val_def)

lemma escape_example_high:
  "map_sum id bytes (escape sg [0xC3, 0xA9, 0x7F, 0x7E, 0, 0x22] 6)
     = Inr [0x20, 0x20, 0x20, 0x7E, 0, 0]"
  by (cases sg) (simp_all add: escape_def wr_def rd_def escape_loop.simps escape_body_def escape_quote_def escape_range_def char_val_def)

text \<open>The precondition is needed: with \<open>size = 0\<close> the first store is out of bounds.\<close>

lemma escape_size_zero: "length str < 2 ^ 64 \<Longrightarrow> escape sg str 0 = Inl OutOfBounds"
  by (simp add: escape_def wr_def unsigned_minus_1_eq_mask mask_eq_exp_minus_1)

subsection \<open>Byte order\<close>

lemma isBigEndian_iff: "isBigEndian bo \<longleftrightarrow> bo = BigEndian"
  by (cases bo) (simp_all add: isBigEndian_def SingleSplit4Bytes_def byte_of_def)

text \<open>
  Claim C7. \<^verbatim>\<open>isBigEndian\<close> is a function of the platform's byte order alone, and it is
  true exactly when the first byte in memory of the pattern \<open>0x01020304\<close> is the most
  significant byte \<open>0x01\<close> of the pattern, which is the case on a big-endian platform only.
\<close>

theorem isBigEndian_first_byte:
  "isBigEndian bo = (hd (store_uint32 bo 0x01020304) = ucast (drop_bit 24 (0x01020304 :: 32 word)))
   \<and> isBigEndian bo = (bo = BigEndian)"
  by (cases bo) (simp_all add: isBigEndian_def SingleSplit4Bytes_def byte_of_def)

lemma bswap16_cat: "bswap16 v = word_cat (ucast v :: byte) (ucast (drop_bit 8 v) :: byte)"
  by (rule bit_word_eqI) (auto simp: bswap16_def bit_simps dest: bit_imp_le_length)

text \<open>
  Claim C6. \<^verbatim>\<open>networkToHost\<close> returns its argument on a big-endian platform and the
  argument with its two bytes exchanged on any other; \<open>0x1234\<close> becomes \<open>0x3412\<close> on a
  little-endian host and stays \<open>0x1234\<close> on a big-endian one.
\<close>

theorem networkToHost_swaps:
  "networkToHost bo v =
     (if bo = BigEndian then v else word_cat (ucast v :: byte) (ucast (drop_bit 8 v) :: byte))
   \<and> networkToHost LittleEndian 0x1234 = 0x3412
   \<and> networkToHost BigEndian 0x1234 = 0x1234"
proof (intro conjI)
  show "networkToHost bo v =
     (if bo = BigEndian then v else word_cat (ucast v :: byte) (ucast (drop_bit 8 v) :: byte))"
    by (simp add: networkToHost_def isBigEndian_iff bswap16_cat)
  show "networkToHost LittleEndian 0x1234 = 0x3412"
    by (simp add: networkToHost_def isBigEndian_iff bswap16_def)
  show "networkToHost BigEndian 0x1234 = 0x1234"
    by (simp add: networkToHost_def isBigEndian_iff)
qed

subsection \<open>Sine and cosine\<close>

text \<open>
  Claim C8. Where \<^verbatim>\<open>OS_WINDOWS\<close> is not defined, the flag returned by \<^verbatim>\<open>sinCos\<close> is true
  exactly when computing sine and cosine raised none of invalid, divide-by-zero, overflow
  and underflow, whatever flags were raised before the call; where it is defined the flag
  is always true.
\<close>

theorem sinCos_flag:
  "ret (fst (sinCos False m v env)) =
     (snd (snd (sincosf m v)) \<inter> {FE_INVALID, FE_DIVBYZERO, FE_OVERFLOW, FE_UNDERFLOW} = {})
   \<and> ret (fst (sinCos True m v env)) = True"
proof -
  have "x \<in> FE_ALL_EXCEPT" for x
    by (cases x) (simp_all add: FE_ALL_EXCEPT_def)
  then have "raised (feclearexcept FE_ALL_EXCEPT e) = {}" for e
    by (auto simp: feclearexcept_def)
  then show ?thesis
    by (simp add: sinCos_def feraise_def fetestexcept_def split: prod.splits)
qed

lemma sinCos_example:
  "ret (fst (sinCos False \<lparr>sin = id, cos = id, sincosf = (\<lambda>x. (x, x, {FE_INEXACT}))\<rparr> (0::int)
               \<lparr>errno = 5, raised = {FE_OVERFLOW}\<rparr>))"
  "\<not> ret (fst (sinCos False \<lparr>sin = id, cos = id, sincosf = (\<lambda>x. (x, x, {FE_INVALID}))\<rparr> (0::int)
               \<lparr>errno = 0, raised = {}\<rparr>))"
  by (simp_all add: sinCos_def feclearexcept_def feraise_def fetestexcept_def FE_ALL_EXCEPT_def)

subsection \<open>File reader\<close>

text \<open>
  Claim C9. For a path that names no file that can be opened for reading, \<^verbatim>\<open>readFile\<close>
  returns the empty buffer: the stream is not good after the failed open, the loop body
  never runs, and nothing is thrown.
\<close>

theorem readFile_missing: "fs path = None \<Longrightarrow> readFile fs path = []"
  by (simp add: readFile_def ifstream_open_def readFile_loop.simps good_def)

theorem readFile_missing_witness:
  "(Map.empty :: filesystem) ''/nonexistent'' = None \<and> readFile Map.empty ''/nonexistent'' = []"
  using readFile_missing [of Map.empty "''/nonexistent''"] by simp

text \<open>A file that can be opened is returned whole.\<close>

lemma readFile_loop_all:
  "good ifs \<Longrightarrow> readFile_loop ifs content = content @ unread ifs"
proof (induction "length (unread ifs)" arbitrary: ifs content rule: less_induct)
  case less
  show ?case
  proof (cases "256 \<le> length (unread ifs)")
    case True
    let ?ifs' = "ifs\<lparr>unread := drop 256 (unread ifs), last_count := 256\<rparr>"
    have g: "good ?ifs'" using less.prems by (simp add: good_def)
    have "readFile_loop ifs content = readFile_loop ?ifs' (content @ take 256 (unread ifs))"
      using less.prems True by (subst readFile_loop.simps) (simp add: read_def gcount_def)
    also have "\<dots> = (content @ take 256 (unread ifs)) @ unread ?ifs'"
      using True g by (intro less.hyps) simp_all
    finally show ?thesis by simp
  next
    case False
    let ?ifs' = "ifs\<lparr>eofbit := True, failbit := True, unread := [], last_count := length (unread ifs)\<rparr>"
    have "readFile_loop ifs content = readFile_loop ?ifs' (if length (unread ifs) > 0 then content @ unread ifs else content)"
      using less.prems False by (subst readFile_loop.simps) (simp add: read_def gcount_def)
    also have "\<dots> = content @ unread ifs"
      by (subst readFile_loop.simps) (simp add: good_def)
    finally show ?thesis .
  qed
qed

lemma readFile_existing: "fs path = Some content \<Longrightarrow> readFile fs path = content"
  by (simp add: readFile_def ifstream_open_def readFile_loop_all good_def)

subsection \<open>Encoding converter\<close>

lemma utf8_write_bytes: "c < 0x110000 \<Longrightarrow> b \<in> set (utf8_write c) \<Longrightarrow> b < 256"
  unfolding utf8_write_def by (auto split: if_splits)

lemma utf16_write_units: "c < 0x110000 \<Longrightarrow> u \<in> set (utf16_write c) \<Longrightarrow> u < 65536"
  unfolding utf16_write_def by (auto split: if_splits)

lemma utf16_read_write:
  assumes "is_scalar c"
  shows "utf16_read (utf16_write c @ rest) = CodePoint c rest"
proof (cases "c < 0x10000")
  case True
  with assms show ?thesis
    by (auto simp: utf16_read_def utf16_write_def is_scalar_def is_high_surrogate_def is_low_surrogate_def)
next
  case False
  with assms have r: "0x10000 \<le> c" "c < 0x110000" by (auto simp: is_scalar_def)
  define d where "d = c - 0x10000"
  have d: "d < 0x100000" "c = 0x10000 + d" using r by (simp_all add: d_def)
  have q: "d div 1024 < 1024" using d(1) by simp
  have m: "d mod 1024 < 1024" by simp
  have e: "d div 1024 * 1024 + d mod 1024 = d" by simp
  show ?thesis
    using False q m e d(2)
    by (simp add: utf16_read_def utf16_write_def is_high_surrogate_def is_low_surrogate_def d_def[symmetric])
qed

lemma split64: "(c::nat) = c div 64 * 64 + c mod 64"
  by simp

lemma split4096: "(c::nat) = c div 4096 * 4096 + c div 64 mod 64 * 64 + c mod 64"
proof -
  have "c div 64 = c div 64 div 64 * 64 + c div 64 mod 64" by simp
  moreover have "c div 64 div 64 = c div 4096" by (simp add: div_mult2_eq[symmetric])
  ultimately have "c div 64 = c div 4096 * 64 + c div 64 mod 64" by simp
  then have "c div 64 * 64 = c div 4096 * 4096 + c div 64 mod 64 * 64" by simp
  with split64[of c] show ?thesis by linarith
qed

lemma split262144:
  "(c::nat) = c div 262144 * 262144 + c div 4096 mod 64 * 4096 + c div 64 mod 64 * 64 + c mod 64"
proof -
  have "c div 4096 = c div 4096 div 64 * 64 + c div 4096 mod 64" by simp
  moreover have "c div 4096 div 64 = c div 262144" by (simp add: div_mult2_eq[symmetric])
  ultimately have "c div 4096 = c div 262144 * 64 + c div 4096 mod 64" by simp
  then have "c div 4096 * 4096 = c div 262144 * 262144 + c div 4096 mod 64 * 4096" by simp
  with split4096[of c] show ?thesis by linarith
qed

lemma dm2: "d < 64 \<Longrightarrow> (a * 64 + d) div 64 = (a::nat) \<and> (a * 64 + d) mod 64 = d"
  by simp

lemma dm3:
  assumes "b < 64" "d < 64"
  shows "(a * 4096 + b * 64 + d) div 4096 = (a::nat)"
    and "(a * 4096 + b * 64 + d) div 64 mod 64 = b"
    and "(a * 4096 + b * 64 + d) mod 64 = d"
proof -
  let ?c = "a * 4096 + b * 64 + d"
  have e: "?c = (a * 64 + b) * 64 + d" by simp
  have "((a * 64 + b) * 64 + d) div 64 = a * 64 + b"
    by (rule dm2[OF assms(2), THEN conjunct1])
  then have q: "?c div 64 = a * 64 + b" unfolding e .
  have "(a * 64 + b) mod 64 = b"
    by (rule dm2[OF assms(1), THEN conjunct2])
  then show "?c div 64 mod 64 = b" unfolding q .
  have "((a * 64 + b) * 64 + d) mod 64 = d"
    by (rule dm2[OF assms(2), THEN conjunct2])
  then show "?c mod 64 = d" unfolding e .
  have "?c div 4096 = ?c div 64 div 64"
    by (simp add: div_mult2_eq[symmetric])
  also have "\<dots> = (a * 64 + b) div 64" unfolding q ..
  also have "\<dots> = a"
    by (rule dm2[OF assms(1), THEN conjunct1])
  finally show "?c div 4096 = a" .
qed

lemma dm4:
  assumes "b < 64" "d < 64" "e < 64"
  shows "(a * 262144 + b * 4096 + d * 64 + e) div 262144 = (a::nat)"
    and "(a * 262144 + b * 4096 + d * 64 + e) div 4096 mod 64 = b"
    and "(a * 262144 + b * 4096 + d * 64 + e) div 64 mod 64 = d"
    and "(a * 262144 + b * 4096 + d * 64 + e) mod 64 = e"
proof -
  let ?c = "a * 262144 + b * 4096 + d * 64 + e"
  have e: "?c = (a * 64 + b) * 4096 + d * 64 + e" by simp
  note t = dm3[OF assms(2,3), of "a * 64 + b"]
  from t(1) have q: "?c div 4096 = a * 64 + b" unfolding e .
  from t(2) show "?c div 64 mod 64 = d" unfolding e .
  from t(3) show "?c mod 64 = e" unfolding e .
  have "(a * 64 + b) mod 64 = b"
    by (rule dm2[OF assms(1), THEN conjunct2])
  then show "?c div 4096 mod 64 = b" unfolding q .
  have "?c div 262144 = ?c div 4096 div 64" by (simp add: div_mult2_eq[symmetric])
  also have "\<dots> = (a * 64 + b) div 64" unfolding q ..
  also have "\<dots> = a"
    by (rule dm2[OF assms(1), THEN conjunct1])
  finally show "?c div 262144 = a" .
qed

lemma utf8_read_write:
  assumes "is_scalar c"
  shows "utf8_read surr (utf8_write c @ rest) = CodePoint c rest"
proof -
  consider "c < 0x80" | "0x80 \<le> c" "c < 0x800" | "0x800 \<le> c" "c < 0x10000" | "0x10000 \<le> c" "c < 0x110000"
    using assms unfolding is_scalar_def by linarith
  then show ?thesis
  proof cases
    case 1
    then show ?thesis by (simp add: utf8_read_def utf8_write_def)
  next
    case 2
    define a where "a = c div 64"
    define d where "d = c mod 64"
    have c: "c = a * 64 + d" unfolding a_def d_def by (rule split64)
    have bounds: "a < 32" "2 \<le> a" "d < 64" using 2 unfolding a_def d_def by simp_all
    have w: "utf8_write c = [0xC0 + a, 0x80 + d]"
      using 2 by (simp add: utf8_write_def a_def d_def)
    show ?thesis unfolding w using bounds
      by (simp add: utf8_read_def is_continuation_def c)
  next
    case 3
    define a where "a = c div 4096"
    define b where "b = c div 64 mod 64"
    define d where "d = c mod 64"
    have c: "c = a * 4096 + b * 64 + d" unfolding a_def b_def d_def by (rule split4096)
    have bounds: "a < 16" "b < 64" "d < 64" using 3 unfolding a_def b_def d_def by simp_all
    have lo: "a = 0 \<Longrightarrow> 32 \<le> b" using 3 c bounds by simp
    have hi: "a = 13 \<Longrightarrow> b < 32" using 3 c bounds assms by (simp add: is_scalar_def)
    have w: "utf8_write c = [0xE0 + a, 0x80 + b, 0x80 + d]"
      using 3 by (simp add: utf8_write_def a_def b_def d_def)
    show ?thesis unfolding w using bounds lo hi
      by (auto simp add: utf8_read_def is_continuation_def c)
  next
    case 4
    define a where "a = c div 262144"
    define b where "b = c div 4096 mod 64"
    define d where "d = c div 64 mod 64"
    define e where "e = c mod 64"
    have c: "c = a * 262144 + b * 4096 + d * 64 + e" unfolding a_def b_def d_def e_def by (rule split262144)
    have bounds: "a < 5" "b < 64" "d < 64" "e < 64" using 4 unfolding a_def b_def d_def e_def by simp_all
    have lo: "a = 0 \<Longrightarrow> 16 \<le> b" using 4 c bounds by simp
    have hi: "a = 4 \<Longrightarrow> b < 16" using 4 c bounds by simp
    have w: "utf8_write c = [0xF0 + a, 0x80 + b, 0x80 + d, 0x80 + e]"
      using 4 by (simp add: utf8_write_def a_def b_def d_def e_def)
    show ?thesis unfolding w using bounds lo hi
      by (auto simp add: utf8_read_def is_continuation_def c)
  qed
qed

lemma utf8_read_Some:
  assumes "utf8_read False bs = CodePoint c rest"
  shows "is_scalar c \<and> bs = utf8_write c @ rest"
proof -
  from assms obtain b1 r1 where bs: "bs = b1 # r1"
    by (cases bs) (simp_all add: utf8_read_def)
  consider "b1 < 0x80" | "0xC2 \<le> b1" "b1 < 0xE0" | "0xE0 \<le> b1" "b1 < 0xF0" | "0xF0 \<le> b1" "b1 < 0xF5"
    using assms unfolding bs utf8_read_def by (auto split: if_splits)
  then show ?thesis
  proof cases
    case 1
    with assms show ?thesis
      by (simp add: bs utf8_read_def utf8_write_def is_scalar_def)
  next
    case 2
    with assms obtain b2 where r1: "r1 = b2 # rest" and b2: "0x80 \<le> b2" "b2 \<le> 0xBF"
      and c: "c = (b1 - 0xC0) * 64 + (b2 - 0x80)"
      by (auto simp: bs utf8_read_def is_continuation_def split: list.splits if_splits)
    define a where "a = b1 - 0xC0"
    define d where "d = b2 - 0x80"
    have ab: "2 \<le> a" "a < 32" "d < 64" "b1 = 0xC0 + a" "b2 = 0x80 + d"
      using 2 b2 by (simp_all add: a_def d_def)
    have c': "c = a * 64 + d" using c by (simp add: a_def d_def)
    have r: "0x80 \<le> c" "c < 0x800" using ab c' by simp_all
    have "utf8_write c = [b1, b2]"
      using r dm2[OF ab(3), of a] ab by (simp add: utf8_write_def c')
    with r show ?thesis by (simp add: bs r1 is_scalar_def)
  next
    case 3
    with assms obtain b2 b3 where r1: "r1 = b2 # b3 # rest"
      and b2: "(if b1 = 0xE0 then 0xA0 else 0x80) \<le> b2" "b2 \<le> (if b1 = 0xED then 0x9F else 0xBF)"
      and b3: "0x80 \<le> b3" "b3 \<le> 0xBF"
      and c: "c = (b1 - 0xE0) * 4096 + (b2 - 0x80) * 64 + (b3 - 0x80)"
      by (auto simp: bs utf8_read_def is_continuation_def split: list.splits if_splits)
    define a where "a = b1 - 0xE0"
    define b where "b = b2 - 0x80"
    define d where "d = b3 - 0x80"
    have b2': "0x80 \<le> b2" "b2 \<le> 0xBF" using b2 by (auto split: if_splits)
    have ab: "a < 16" "b < 64" "d < 64" "b1 = 0xE0 + a" "b2 = 0x80 + b" "b3 = 0x80 + d"
      using 3 b2' b3 by (simp_all add: a_def b_def d_def)
    have lo: "a = 0 \<Longrightarrow> 32 \<le> b" using b2(1) ab by (simp split: if_splits)
    have hi: "a = 13 \<Longrightarrow> b < 32" using b2(2) ab by (simp split: if_splits)
    have c': "c = a * 4096 + b * 64 + d" using c by (simp add: a_def b_def d_def)
    have r: "0x800 \<le> c" "c < 0x10000" "is_scalar c"
      using ab c' lo hi unfolding is_scalar_def by (cases "a = 0"; cases "a = 13"; simp; linarith)+
    have "utf8_write c = [b1, b2, b3]"
      using r dm3[OF ab(2,3), of a] ab by (simp add: utf8_write_def c')
    with r show ?thesis by (simp add: bs r1)
  next
    case 4
    with assms obtain b2 b3 b4 where r1: "r1 = b2 # b3 # b4 # rest"
      and b2: "(if b1 = 0xF0 then 0x90 else 0x80) \<le> b2" "b2 \<le> (if b1 = 0xF4 then 0x8F else 0xBF)"
      and b3: "0x80 \<le> b3" "b3 \<le> 0xBF" and b4: "0x80 \<le> b4" "b4 \<le> 0xBF"
      and c: "c = (b1 - 0xF0) * 262144 + (b2 - 0x80) * 4096 + (b3 - 0x80) * 64 + (b4 - 0x80)"
      by (auto simp: bs utf8_read_def is_continuation_def split: list.splits if_splits)
    define a where "a = b1 - 0xF0"
    define b where "b = b2 - 0x80"
    define d where "d = b3 - 0x80"
    define e where "e = b4 - 0x80"
    have b2': "0x80 \<le> b2" "b2 \<le> 0xBF" using b2 by (auto split: if_splits)
    have ab: "a < 5" "b < 64" "d < 64" "e < 64" "b1 = 0xF0 + a" "b2 = 0x80 + b" "b3 = 0x80 + d"
      "b4 = 0x80 + e"
      using 4 b2' b3 b4 by (simp_all add: a_def b_def d_def e_def)
    have lo: "a = 0 \<Longrightarrow> 16 \<le> b" using b2(1) ab by (simp split: if_splits)
    have hi: "a = 4 \<Longrightarrow> b < 16" using b2(2) ab by (simp split: if_splits)
    have c': "c = a * 262144 + b * 4096 + d * 64 + e" using c by (simp add: a_def b_def d_def e_def)
    have r: "0x10000 \<le> c" "c < 0x110000"
      using ab c' lo hi by (cases "a = 0"; cases "a = 4"; simp; linarith)+
    have "utf8_write c = [b1, b2, b3, b4]"
      using r dm4[OF ab(2,3,4), of a] ab by (simp add: utf8_write_def c')
    with r show ?thesis by (simp add: bs r1 is_scalar_def)
  qed
qed

lemma utf8_write_nonempty: "utf8_write c \<noteq> []"
  by (simp add: utf8_write_def)

lemma utf16_write_nonempty: "utf16_write c \<noteq> []"
  by (simp add: utf16_write_def)

lemma utf8_in_write:
  "\<forall>c \<in> set cps. is_scalar c \<Longrightarrow> utf8_in surr (concat (map utf8_write cps)) = (cps, ok)"
proof (induction cps)
  case Nil
  show ?case by (simp add: utf8_in.simps)
next
  case (Cons c cps)
  then have "utf8_read surr (utf8_write c @ concat (map utf8_write cps))
               = CodePoint c (concat (map utf8_write cps))"
    by (simp add: utf8_read_write)
  with Cons show ?case
    by (subst utf8_in.simps) (simp add: utf8_write_nonempty)
qed

lemma utf16_out_write:
  "\<forall>c \<in> set cps. is_scalar c \<Longrightarrow> utf16_out (concat (map utf16_write cps)) = (cps, ok)"
proof (induction cps)
  case Nil
  show ?case by (simp add: utf16_out.simps)
next
  case (Cons c cps)
  then have "utf16_read (utf16_write c @ concat (map utf16_write cps))
               = CodePoint c (concat (map utf16_write cps))"
    by (simp add: utf16_read_write)
  with Cons show ?case
    by (subst utf16_out.simps) (simp add: utf16_write_nonempty)
qed

lemma utf16_out_scalars:
  "\<forall>c \<in> set cps. is_scalar c \<Longrightarrow> utf16_out cps = (cps, ok)"
proof (induction cps)
  case Nil
  show ?case by (simp add: utf16_out.simps)
next
  case (Cons c cps)
  then have "is_scalar c" by simp
  then have "utf16_read (c # cps) = CodePoint c cps"
    by (auto simp: utf16_read_def is_scalar_def is_high_surrogate_def is_low_surrogate_def)
  with Cons show ?case by (subst utf16_out.simps) simp
qed

text \<open>With the check for surrogates, what the facet accepts is the encoding of scalar values.\<close>

lemma utf8_in_ok:
  "utf8_in surr bs = (cps, ok) \<Longrightarrow> \<not> surr \<Longrightarrow>
     (\<forall>c \<in> set cps. is_scalar c) \<and> concat (map utf8_write cps) = bs"
proof (induction surr bs arbitrary: cps rule: utf8_in.induct)
  case (1 surr bs)
  from "1.prems"(2) have f: "surr = False" by simp
  show ?case
  proof (cases "bs = []")
    case True
    with "1.prems" show ?thesis by (simp add: utf8_in.simps)
  next
    case False
    with "1.prems"(1) obtain c rest cps' where r: "utf8_read surr bs = CodePoint c rest"
      and i: "utf8_in surr rest = (cps', ok)" and cps: "cps = c # cps'"
      by (subst (asm) utf8_in.simps) (auto split: read_result.splits prod.splits)
    from r have r': "utf8_read False bs = CodePoint c rest" by (simp add: f)
    from "1.IH"[OF False r i "1.prems"(2)] utf8_read_Some[OF r'] cps show ?thesis by simp
  qed
qed

lemma is_scalar_bound: "is_scalar c \<Longrightarrow> c < 0x110000"
  by (auto simp: is_scalar_def)

lemma utf8_bytes_bound:
  "\<forall>c \<in> set cps. is_scalar c \<Longrightarrow> \<forall>b \<in> set (concat (map utf8_write cps)). b < 256"
  by (auto dest: is_scalar_bound utf8_write_bytes)

lemma utf16_units_bound:
  "\<forall>c \<in> set cps. is_scalar c \<Longrightarrow> \<forall>u \<in> set (concat (map utf16_write cps)). u < 65536"
  by (auto dest: is_scalar_bound utf16_write_units)

lemma unat_of_nat_byte: "\<forall>b \<in> set bs. b < 256 \<Longrightarrow> map unat (map of_nat bs :: byte list) = bs"
  by (induction bs) (simp_all add: unat_of_nat)

lemma of_nat_unat_bytes: "map of_nat (map unat str) = (str :: byte list)"
  by (induction str) simp_all

lemma unat_utf8_encode:
  "\<forall>c \<in> set cps. is_scalar c \<Longrightarrow> map unat (utf8_encode cps) = concat (map utf8_write cps)"
  unfolding utf8_encode_def by (rule unat_of_nat_byte[OF utf8_bytes_bound])

lemma unit_through_wide:
  assumes "16 \<le> LENGTH('w::len)" "u < 65536"
  shows "unat (ucast (of_nat u :: 'w word) :: 16 word) = u"
proof -
  have "(2::nat) ^ 16 \<le> 2 ^ LENGTH('w)" using assms(1) by (rule power_increasing) simp
  then have "u < 2 ^ LENGTH('w)" using assms(2) by simp
  then have "unat (of_nat u :: 'w word) = u" by (simp add: unat_of_nat)
  moreover have "(ucast (of_nat u :: 'w word) :: 16 word) = of_nat (unat (of_nat u :: 'w word))"
    by (simp only: of_nat_unat)
  ultimately have "(ucast (of_nat u :: 'w word) :: 16 word) = of_nat u" by simp
  then show ?thesis using assms(2) by (simp add: unat_of_nat)
qed

lemma units_through_wide:
  assumes "16 \<le> LENGTH('w::len)" "\<forall>u \<in> set us. u < 65536"
  shows "map unat (map ucast (map of_nat us :: 'w word list) :: 16 word list) = us"
  using assms(2) by (induction us) (simp_all add: unit_through_wide[OF assms(1)])

text \<open>
  A facet with the check for surrogates accepts exactly the encodings of sequences of
  scalar values.
\<close>

lemma utf8_valid_iff:
  "(\<exists>cps. (\<forall>c \<in> set cps. is_scalar c) \<and> str = utf8_encode cps)
     \<longleftrightarrow> snd (utf8_in False (map unat str)) = ok"
proof
  assume "\<exists>cps. (\<forall>c \<in> set cps. is_scalar c) \<and> str = utf8_encode cps"
  then obtain cps where s: "\<forall>c \<in> set cps. is_scalar c" and e: "str = utf8_encode cps" by blast
  show "snd (utf8_in False (map unat str)) = ok"
    by (simp add: e unat_utf8_encode[OF s] utf8_in_write[OF s])
next
  assume a: "snd (utf8_in False (map unat str)) = ok"
  obtain cps where d: "utf8_in False (map unat str) = (cps, ok)"
    using a by (cases "utf8_in False (map unat str)") simp
  from utf8_in_ok[OF d] have s: "\<forall>c \<in> set cps. is_scalar c"
    and "concat (map utf8_write cps) = map unat str" by simp_all
  then have "utf8_encode cps = map of_nat (map unat str)" by (simp only: utf8_encode_def)
  then have "str = utf8_encode cps" by (simp only: of_nat_unat_bytes)
  with s show "\<exists>cps. (\<forall>c \<in> set cps. is_scalar c) \<and> str = utf8_encode cps" by blast
qed

lemma from_bytes_encode:
  assumes "\<forall>c \<in> set cps. is_scalar c"
  shows "(from_bytes lib (utf8_encode cps) :: exception + 'w::len word list)
           = Inr (map of_nat (concat (map utf16_write cps)))"
  by (simp add: from_bytes_def converted_def unat_utf8_encode[OF assms] utf8_in_write[OF assms])

lemma to_bytes_units:
  assumes "\<forall>c \<in> set cps. is_scalar c"
  shows "to_bytes lib (concat (map utf16_write cps)) = Inr (utf8_encode cps)"
  using assms by (simp add: to_bytes_def converted_def utf16_out_write)

text \<open>
  Claim C2. Let \<open>str\<close> be valid UTF-8, that is the encoding of a sequence of Unicode scalar
  values, supplementary planes included. Converting it with \<^verbatim>\<open>utf8ToUtf16\<close> and handing the
  wide string, unit by unit, to the 2-byte \<^verbatim>\<open>utf16ToUtf8\<close> gives \<open>str\<close> back, for every
  \<^verbatim>\<open>wchar_t\<close> of at least 16 bits and every implementation of the library.
\<close>

theorem utf8_roundtrip_u16:
  assumes "\<forall>c \<in> set cps. is_scalar c" and "16 \<le> LENGTH('w::len)"
  shows "utf16ToUtf8_u16string lib (map ucast (utf8ToUtf16 lib (utf8_encode cps) :: 'w word list))
           = utf8_encode cps"
proof -
  have "(utf8ToUtf16 lib (utf8_encode cps) :: 'w word list)
          = map of_nat (concat (map utf16_write cps))"
    by (simp add: utf8ToUtf16_def from_bytes_encode[OF assms(1)])
  moreover have "map unat (map ucast (map of_nat (concat (map utf16_write cps)) :: 'w word list) :: 16 word list)
                   = concat (map utf16_write cps)"
    by (rule units_through_wide[OF assms(2) utf16_units_bound[OF assms(1)]])
  ultimately show ?thesis
    by (simp add: utf16ToUtf8_u16string_def to_bytes_units[OF assms(1)])
qed

theorem utf8_roundtrip_u16_witness:
  "is_scalar 0x61 \<and> is_scalar 0xE9 \<and> is_scalar 0x20AC \<and> is_scalar 0x1F600
   \<and> 16 \<le> LENGTH(32)
   \<and> utf16ToUtf8_u16string libstdcxx
         (map ucast (utf8ToUtf16 libstdcxx
                       (utf8_encode [0x61, 0xE9, 0x20AC, 0x1F600]) :: 32 word list))
        = utf8_encode [0x61, 0xE9, 0x20AC, 0x1F600]"
proof -
  have h1: "\<forall>c \<in> set [0x61, 0xE9, 0x20AC, 0x1F600]. is_scalar c" by (simp add: is_scalar_def)
  have h2: "16 \<le> LENGTH(32)" by simp
  show ?thesis
    by (intro conjI utf8_roundtrip_u16 [OF h1 h2]) (simp_all add: is_scalar_def)
qed

lemma utf8_encode_example:
  "utf8_encode [0x61, 0xE9, 0x20AC, 0x1F600] = [0x61, 0xC3, 0xA9, 0xE2, 0x82, 0xAC, 0xF0, 0x9F, 0x98, 0x80]"
  by (simp add: utf8_encode_def utf8_write_def)

lemma utf8ToUtf16_example:
  "(utf8ToUtf16 lib [0x61, 0xC3, 0xA9, 0xE2, 0x82, 0xAC, 0xF0, 0x9F, 0x98, 0x80] :: 16 word list)
     = [0x61, 0xE9, 0x20AC, 0xD83D, 0xDE00]"
  by (simp add: utf8ToUtf16_def from_bytes_def converted_def utf8_in.simps utf8_read_def
        is_continuation_def utf16_write_def)

text \<open>An invalid sequence is a \<^verbatim>\<open>std::range_error\<close> in every library, and is caught.\<close>

lemma utf8ToUtf16_error:
  "snd (utf8_in (surrogates_accepted lib) (map unat str)) = error \<Longrightarrow>
     utf8ToUtf16 lib str = ([] :: 'w::len word list)"
  by (cases "utf8_in (surrogates_accepted lib) (map unat str)")
     (simp add: utf8ToUtf16_def from_bytes_def converted_def)

lemma utf8ToUtf16_lone_continuation: "utf8ToUtf16 lib [0x80] = ([] :: 'w::len word list)"
  by (rule utf8ToUtf16_error) (simp add: utf8_in.simps utf8_read_def)

text \<open>
  The input \<open>61 E2 82\<close>, a letter and the first two of the three bytes of \<open>U+20AC\<close>, is
  not valid UTF-8.
\<close>

lemma truncated_input_malformed:
  "\<not> (\<exists>cps. (\<forall>c \<in> set cps. is_scalar c) \<and> [0x61, 0xE2, 0x82] = utf8_encode cps)"
  by (simp add: utf8_valid_iff utf8_in.simps utf8_read_def)

text \<open>
  Claim C3: on every malformed input \<^verbatim>\<open>utf8ToUtf16\<close> returns the empty wide string, never a
  partial result. The function does not achieve this. It turns a \<^verbatim>\<open>std::range_error\<close>
  into the empty string, but it never compares \<^verbatim>\<open>conv.converted()\<close> with the length of the
  input, so with a library that returns from an incomplete conversion the malformed input
  \<open>61 E2 82\<close> gives the wide string of its first byte. With a library that throws there,
  the same input gives the empty string.
\<close>

theorem utf8ToUtf16_truncated_not_empty:
  "(utf8ToUtf16 libstdcxx [0x61, 0xE2, 0x82] :: 32 word list) = [0x61]
   \<and> (utf8ToUtf16 libcxx [0x61, 0xE2, 0x82] :: 32 word list) = []"
  by (simp add: utf8ToUtf16_def from_bytes_def converted_def utf8_in.simps utf8_read_def
        utf16_write_def libstdcxx_def libcxx_def)

text \<open>
  The incomplete case is decided by the count of bytes alone: \<open>61 F0 28\<close>, where the byte
  after the lead byte is wrong as well, is returned from in the same way. Without the
  check for surrogates the three bytes \<open>ED A0 80\<close> come out as the code unit \<open>0xD800\<close>.
  An invalid sequence after a valid prefix gives the empty string in every library.
\<close>

lemma utf8ToUtf16_examples:
  "(utf8ToUtf16 libstdcxx [0x61, 0xF0, 0x28] :: 32 word list) = [0x61]"
  "(utf8ToUtf16 libstdcxx [0xED, 0xA0, 0x80] :: 32 word list) = [0xD800]"
  "(utf8ToUtf16 libcxx [0xED, 0xA0, 0x80] :: 32 word list) = []"
  "(utf8ToUtf16 lib [0x61, 0x62, 0x80] :: 16 word list) = []"
  "(utf8ToUtf16 lib [0x61, 0xE2, 0x28, 0xA1] :: 16 word list) = []"
  "(utf8ToUtf16 lib [0xC0, 0x80] :: 16 word list) = []"
  by (simp_all add: utf8ToUtf16_def from_bytes_def converted_def utf8_in.simps utf8_read_def
        is_continuation_def utf16_write_def libstdcxx_def libcxx_def)

text \<open>
  Claim C1 does not hold as stated. Where the facet reads 16 bits of each element, the
  UTF-32 text consisting of \<open>U+1F600\<close> alone comes out as the three bytes of \<open>U+F600\<close>.
\<close>

theorem utf32_single_unit_counterexample:
  "is_scalar (unat (0x1F600 :: 32 word))
   \<and> utf16ToUtf8_u32string libcxx [0x1F600]
        = [0xEF, 0x98, 0x80]
   \<and> utf8_encode (map unat [0x1F600 :: 32 word]) = [0xF0, 0x9F, 0x98, 0x80]
   \<and> utf16ToUtf8_u32string libcxx [0x1F600]
        \<noteq> utf8_encode (map unat [0x1F600 :: 32 word])"
  by (simp add: is_scalar_def utf16ToUtf8_u32string_def to_bytes_def converted_def utf16_out.simps
        utf16_read_def is_high_surrogate_def is_low_surrogate_def utf8_encode_def utf8_write_def
        libcxx_def)

lemma read_elem_scalar:
  assumes "impl = WholeElement \<or> unat w < 0x10000"
  shows "read_elem impl w = unat w"
proof (cases impl)
  case WholeElement
  then show ?thesis by simp
next
  case Low16
  with assms have "unat w < 2 ^ 16" by simp
  then have "unat (ucast w :: 16 word) = unat w"
    by (simp add: unsigned_ucast_eq take_bit_nat_eq_self)
  with Low16 show ?thesis by simp
qed

text \<open>
  Claim C1, amended. For a buffer of 4-byte units holding UTF-32 (every unit a scalar
  value), the 4-byte \<^verbatim>\<open>utf16ToUtf8\<close> returns the UTF-8 encoding of the text if all its code
  points are below \<open>U+10000\<close>, or if the facet reads the whole element.
\<close>

theorem utf32_to_utf8:
  assumes "\<forall>w \<in> set str. is_scalar (unat w)"
    and "elem_read lib = WholeElement \<or> (\<forall>w \<in> set str. unat w < 0x10000)"
  shows "utf16ToUtf8_u32string lib str = utf8_encode (map unat str)"
proof -
  have r: "map (read_elem (elem_read lib)) str = map unat str"
    using assms(2) by (auto simp: read_elem_scalar)
  have "utf16_out (map unat str) = (map unat str, ok)"
    using assms(1) by (intro utf16_out_scalars) simp
  then show ?thesis
    unfolding utf16ToUtf8_u32string_def to_bytes_def r by (simp add: converted_def)
qed

theorem utf32_to_utf8_witness:
  "is_scalar (unat (0x41 :: 32 word)) \<and> is_scalar (unat (0x1F600 :: 32 word))
   \<and> utf16ToUtf8_u32string libstdcxx [0x41, 0x1F600]
        = utf8_encode (map unat [0x41, 0x1F600 :: 32 word])"
proof -
  have h1: "\<forall>w \<in> set [0x41, 0x1F600 :: 32 word]. is_scalar (unat w)" by (simp add: is_scalar_def)
  have h2: "elem_read libstdcxx = WholeElement
              \<or> (\<forall>w \<in> set [0x41, 0x1F600 :: 32 word]. unat w < 0x10000)"
    by (simp add: libstdcxx_def)
  show ?thesis
    by (intro conjI utf32_to_utf8 [OF h1 h2]) (simp_all add: is_scalar_def)
qed

text \<open>
  What the 4-byte entry point converts on every implementation is UTF-16 stored one code
  unit per element, as its comment in the header says.
\<close>

lemma read_elem_unit:
  "\<forall>u \<in> set us. u < 65536 \<Longrightarrow> map (read_elem impl) (map of_nat us :: 32 word list) = us"
proof (induction us)
  case Nil
  show ?case by simp
next
  case (Cons u us)
  then have u: "u < 65536" by simp
  then have "unat (of_nat u :: 32 word) = u" by (simp add: unat_of_nat)
  with u have "read_elem impl (of_nat u :: 32 word) = u"
    by (simp add: read_elem_scalar)
  with Cons show ?case by simp
qed

lemma utf16_in_u32_to_utf8:
  assumes "\<forall>c \<in> set cps. is_scalar c"
  shows "utf16ToUtf8_u32string lib (map of_nat (concat (map utf16_write cps))) = utf8_encode cps"
  unfolding utf16ToUtf8_u32string_def read_elem_unit[OF utf16_units_bound[OF assms]]
  by (simp add: to_bytes_units[OF assms])

end
